theory Spec2Isabelle
  imports Complex_Main
begin

section \<open>Data model\<close>

text \<open>
  The notebook keeps one arm of an experiment in
  \<^verbatim>\<open>variation = namedtuple('variation', 'clicks impressions')\<close>.
  Both fields hold Python integers, which are unbounded.
\<close>

record variation =
  clicks :: int
  impressions :: int

text \<open>The exceptions that the modelled cells can raise.\<close>

datatype error = ZeroDivisionError | ValueError | OverflowError

text \<open>
  Python floats and numpy's \<^verbatim>\<open>float64\<close> are modelled by real numbers plus the three
  special values of IEEE arithmetic.  Rounding, overflow to infinity of finite
  operations, underflow and the sign of zero are not modelled: arithmetic on finite
  values is exact real arithmetic.  What is modelled is the difference between the two
  division operators that the notebook uses: a Python \<^verbatim>\<open>int\<close> or \<^verbatim>\<open>float\<close> divided by
  a Python number raises \<^verbatim>\<open>ZeroDivisionError\<close> on a zero divisor, while an operation
  with a numpy scalar or array as one operand returns \<^verbatim>\<open>inf\<close> or \<^verbatim>\<open>nan\<close> (and prints
  a warning).
\<close>

datatype npfloat = Fin real | PInf | NInf | NaN

section \<open>Python and numpy arithmetic\<close>

definition py_bind :: "error + 'a \<Rightarrow> ('a \<Rightarrow> error + 'b) \<Rightarrow> error + 'b" where
  "py_bind m f = (case m of Inl e \<Rightarrow> Inl e | Inr x \<Rightarrow> f x)"

text \<open>\<^verbatim>\<open>a / b\<close> on two Python integers.\<close>

definition int_truediv :: "int \<Rightarrow> int \<Rightarrow> error + real" where
  "int_truediv a b =
     (if b = 0 then Inl ZeroDivisionError else Inr (real_of_int a / real_of_int b))"

text \<open>\<^verbatim>\<open>x / b\<close> on a Python float and a Python integer.\<close>

definition float_truediv :: "real \<Rightarrow> int \<Rightarrow> error + real" where
  "float_truediv x b =
     (if b = 0 then Inl ZeroDivisionError else Inr (x / real_of_int b))"

fun np_sign :: "npfloat \<Rightarrow> real" where
  "np_sign (Fin a) = sgn a"
| "np_sign PInf = 1"
| "np_sign NInf = - 1"
| "np_sign NaN = 0"

definition np_of_sign :: "real \<Rightarrow> npfloat" where
  "np_of_sign s = (if s = 0 then NaN else if 0 < s then PInf else NInf)"

fun np_neg :: "npfloat \<Rightarrow> npfloat" where
  "np_neg (Fin a) = Fin (- a)"
| "np_neg PInf = NInf"
| "np_neg NInf = PInf"
| "np_neg NaN = NaN"

fun np_abs :: "npfloat \<Rightarrow> npfloat" where
  "np_abs (Fin a) = Fin \<bar>a\<bar>"
| "np_abs PInf = PInf"
| "np_abs NInf = PInf"
| "np_abs NaN = NaN"

fun np_add :: "npfloat \<Rightarrow> npfloat \<Rightarrow> npfloat" where
  "np_add (Fin a) (Fin b) = Fin (a + b)"
| "np_add NaN y = NaN"
| "np_add x NaN = NaN"
| "np_add PInf NInf = NaN"
| "np_add NInf PInf = NaN"
| "np_add PInf y = PInf"
| "np_add x PInf = PInf"
| "np_add NInf y = NInf"
| "np_add x NInf = NInf"

definition np_sub :: "npfloat \<Rightarrow> npfloat \<Rightarrow> npfloat" where
  "np_sub x y = np_add x (np_neg y)"

fun np_mul :: "npfloat \<Rightarrow> npfloat \<Rightarrow> npfloat" where
  "np_mul (Fin a) (Fin b) = Fin (a * b)"
| "np_mul NaN y = NaN"
| "np_mul x NaN = NaN"
| "np_mul x y = np_of_sign (np_sign x * np_sign y)"

text \<open>
  numpy division: a finite value over zero is an infinity of the sign of the
  numerator, zero over zero and infinity over infinity are \<^verbatim>\<open>nan\<close>.
\<close>

fun np_div :: "npfloat \<Rightarrow> npfloat \<Rightarrow> npfloat" where
  "np_div (Fin a) (Fin b) = (if b = 0 then np_of_sign (sgn a) else Fin (a / b))"
| "np_div NaN y = NaN"
| "np_div x NaN = NaN"
| "np_div (Fin a) y = Fin 0"
| "np_div x (Fin b) = (if b < 0 then np_neg x else x)"
| "np_div x y = NaN"

text \<open>\<^verbatim>\<open>np.sqrt\<close> on a Python float: \<^verbatim>\<open>nan\<close> below zero.\<close>

definition np_sqrt :: "real \<Rightarrow> npfloat" where
  "np_sqrt x = (if x < 0 then NaN else Fin (sqrt x))"

fun np_ceil :: "npfloat \<Rightarrow> npfloat" where
  "np_ceil (Fin a) = Fin (of_int \<lceil>a\<rceil>)"
| "np_ceil x = x"

text \<open>\<^verbatim>\<open>int(x)\<close> truncates towards zero and raises on \<^verbatim>\<open>inf\<close> and \<^verbatim>\<open>nan\<close>.\<close>

fun py_int :: "npfloat \<Rightarrow> error + int" where
  "py_int (Fin a) = Inr (if 0 \<le> a then \<lfloor>a\<rfloor> else \<lceil>a\<rceil>)"
| "py_int PInf = Inl OverflowError"
| "py_int NInf = Inl OverflowError"
| "py_int NaN = Inl ValueError"

section \<open>The standard normal distribution of scipy\<close>

text \<open>
  Modelled from the spec: \<^verbatim>\<open>scipy.stats.norm\<close> is a library outside the repository.
  The specification names \<^verbatim>\<open>norm.cdf\<close> the standard normal cumulative distribution
  function and \<^verbatim>\<open>norm.ppf\<close> its inverse.  The distribution function is given here by
  the power series of the error function,
  \<open>\<Phi>(x) = 1/2 + (1 / sqrt (2 pi)) * (\<Sum>n. (-1)^n x^(2n+1) / (2^n n! (2n+1)))\<close>,
  and the quantile function as the inverse of that: the distribution function is strictly
  increasing and takes every value in (0,1), as is proved below.  scipy returns the
  infinities at the ends of the domain of \<^verbatim>\<open>norm.ppf\<close> and \<^verbatim>\<open>nan\<close> outside of it.
\<close>

definition Phi_term :: "real \<Rightarrow> nat \<Rightarrow> real" where
  "Phi_term x n = (- 1) ^ n * x ^ (2 * n + 1) / (2 ^ n * fact n * real (2 * n + 1))"

definition Phi :: "real \<Rightarrow> real" where
  "Phi x = 1 / 2 + (\<Sum>n. Phi_term x n) / sqrt (2 * pi)"

definition quantile :: "real \<Rightarrow> real" where
  "quantile q = (THE x. Phi x = q)"

fun norm_cdf :: "npfloat \<Rightarrow> npfloat" where
  "norm_cdf (Fin x) = Fin (Phi x)"
| "norm_cdf PInf = Fin 1"
| "norm_cdf NInf = Fin 0"
| "norm_cdf NaN = NaN"

definition norm_ppf :: "real \<Rightarrow> npfloat" where
  "norm_ppf q =
     (if q < 0 \<or> 1 < q then NaN
      else if q = 0 then NInf
      else if q = 1 then PInf
      else Fin (quantile q))"

section \<open>The notebook's functions\<close>

text \<open>
  Cell 3, the proportion estimator:
  \<^verbatim>\<open>rate = v.clicks/v.impressions\<close>
\<close>

definition rate :: "variation \<Rightarrow> error + real" where
  "rate v = int_truediv (clicks v) (impressions v)"

text \<open>
  Cell 13:
  \<^verbatim>\<open>
  def get_p_value_analytic(variationA, variationB):
      p_A, p_B = (variationA.clicks/variationA.impressions,
                  variationB.clicks/variationB.impressions)
      p = (variationA.clicks + variationB.clicks)/(variationA.impressions + variationB.impressions)
      variance = p*(1-p)/variationA.impressions + p*(1-p)/variationB.impressions
      abs_z = abs(p_A - p_B)/np.sqrt(variance)
      p_value = 2*(1-norm.cdf(abs_z))
      return p_value
  \<close>
\<close>

definition get_p_value_analytic :: "variation \<Rightarrow> variation \<Rightarrow> error + npfloat" where
  "get_p_value_analytic variationA variationB =
     py_bind (int_truediv (clicks variationA) (impressions variationA)) (\<lambda>p_A.
     py_bind (int_truediv (clicks variationB) (impressions variationB)) (\<lambda>p_B.
     py_bind (int_truediv (clicks variationA + clicks variationB)
                       (impressions variationA + impressions variationB)) (\<lambda>p.
     py_bind (float_truediv (p * (1 - p)) (impressions variationA)) (\<lambda>v_A.
     py_bind (float_truediv (p * (1 - p)) (impressions variationB)) (\<lambda>v_B.
     let variance = v_A + v_B;
         abs_z = np_div (Fin \<bar>p_A - p_B\<bar>) (np_sqrt variance);
         p_value = np_mul (Fin 2) (np_sub (Fin 1) (norm_cdf abs_z))
     in Inr p_value)))))"

text \<open>
  Cell 18:
  \<^verbatim>\<open>
  def power_function(p_A_base, DeltaPi, alpha=0.05, beta=0.8):
      p_B = p_A_base + DeltaPi
      p = 0.5*(p_A_base + p_B)
      z2 = abs(norm.ppf(1-beta))
      z_crit = norm.ppf(1-alpha/2)
      root_N = (z2*np.sqrt(p_A_base*(1-p_A_base) + p_B*(1-p_B)) + z_crit*np.sqrt(2*p*(1-p))) / DeltaPi
      return int(np.ceil(root_N**2))
  \<close>
\<close>

definition root_N :: "real \<Rightarrow> real \<Rightarrow> real \<Rightarrow> real \<Rightarrow> npfloat" where
  "root_N p_A_base DeltaPi alpha beta =
     (let p_B = p_A_base + DeltaPi;
          p = 0.5 * (p_A_base + p_B);
          z2 = np_abs (norm_ppf (1 - beta));
          z_crit = norm_ppf (1 - alpha / 2)
      in np_div
           (np_add (np_mul z2 (np_sqrt (p_A_base * (1 - p_A_base) + p_B * (1 - p_B))))
                   (np_mul z_crit (np_sqrt (2 * p * (1 - p)))))
           (Fin DeltaPi))"

definition power_function :: "real \<Rightarrow> real \<Rightarrow> real \<Rightarrow> real \<Rightarrow> error + int" where
  "power_function p_A_base DeltaPi alpha beta =
     (let r = root_N p_A_base DeltaPi alpha beta
      in py_int (np_ceil (np_mul r r)))"

text \<open>\<^verbatim>\<open>x > d\<close> on a numpy value: every comparison with \<^verbatim>\<open>nan\<close> is false.\<close>

fun np_gt :: "npfloat \<Rightarrow> real \<Rightarrow> bool" where
  "np_gt (Fin a) d = (d < a)"
| "np_gt PInf d = True"
| "np_gt NInf d = False"
| "np_gt NaN d = False"

text \<open>
  Cell 6.  \<^verbatim>\<open>np.random.binomial\<close> draws from numpy's global generator and advances
  it.  The generator is outside the repository: it is the parameter \<open>np_binomial\<close>, a function
  from the generator's state, the two parameters of the distribution and the number of
  values asked for to the values drawn and the next state.  numpy validates the arguments
  before it draws.
  \<^verbatim>\<open>
  def draw_clicks_from_n_samples(impressions, prob_click, num_trials):
      return np.random.binomial(impressions, prob_click, size=(num_trials, ))

  def draw_p_sample_from_n_samples(impressions, prob_click, num_trials):
      return draw_clicks_from_n_samples(impressions, prob_click, num_trials)/impressions
  \<close>
\<close>

type_synonym 'g binomial = "'g \<Rightarrow> int \<Rightarrow> real \<Rightarrow> nat \<Rightarrow> int list \<times> 'g"

definition draw_clicks_from_n_samples ::
  "'g binomial \<Rightarrow> 'g \<Rightarrow> int \<Rightarrow> real \<Rightarrow> int \<Rightarrow> (error + int list) \<times> 'g" where
  "draw_clicks_from_n_samples np_binomial g imp prob_click num_trials =
     (if imp < 0 \<or> prob_click < 0 \<or> 1 < prob_click \<or> num_trials < 0
      then (Inl ValueError, g)
      else (let (xs, g') = np_binomial g imp prob_click (nat num_trials)
            in (Inr xs, g')))"

definition draw_p_sample_from_n_samples ::
  "'g binomial \<Rightarrow> 'g \<Rightarrow> int \<Rightarrow> real \<Rightarrow> int \<Rightarrow> (error + npfloat list) \<times> 'g" where
  "draw_p_sample_from_n_samples np_binomial g imp prob_click num_trials =
     (case draw_clicks_from_n_samples np_binomial g imp prob_click num_trials of
        (Inl e, g') \<Rightarrow> (Inl e, g')
      | (Inr xs, g') \<Rightarrow>
          (Inr (map (\<lambda>c. np_div (Fin (real_of_int c)) (Fin (real_of_int imp))) xs),
           g'))"


text \<open>
  Cell 8.  The function has three parameters; the generator state \<open>g\<close> is the global
  state that it reads and leaves changed.
  \<^verbatim>\<open>
  def get_p_value_from_simulation(num_simulations, variation_A, variation_B):
      imp_A, imp_B = variation_A.impressions, variation_B.impressions
      click_A, click_B = variation_A.clicks, variation_B.clicks
      p = (click_A + click_B)/(imp_A + imp_B)
      difference_in_rate = abs(click_A/imp_A - click_B/imp_B)
      p_A_array = draw_p_sample_from_n_samples(imp_A, p, num_simulations)
      p_B_array = draw_p_sample_from_n_samples(imp_B, p, num_simulations)
      result_by_chance = (abs(p_B_array - p_A_array) > difference_in_rate)
      return sum(result_by_chance)/len(result_by_chance)
  \<close>
\<close>

definition result_by_chance :: "npfloat list \<Rightarrow> npfloat list \<Rightarrow> real \<Rightarrow> bool list" where
  "result_by_chance p_A_array p_B_array difference_in_rate =
     map2 (\<lambda>b a. np_gt (np_abs (np_sub b a)) difference_in_rate) p_B_array p_A_array"

definition get_p_value_from_simulation ::
  "'g binomial \<Rightarrow> 'g \<Rightarrow> int \<Rightarrow> variation \<Rightarrow> variation \<Rightarrow> (error + real) \<times> 'g" where
  "get_p_value_from_simulation np_binomial g num_simulations variation_A variation_B =
     (let imp_A = impressions variation_A; imp_B = impressions variation_B;
          click_A = clicks variation_A; click_B = clicks variation_B
      in case int_truediv (click_A + click_B) (imp_A + imp_B) of
           Inl e \<Rightarrow> (Inl e, g)
         | Inr p \<Rightarrow>
        (case py_bind (int_truediv click_A imp_A) (\<lambda>r_A.
              py_bind (int_truediv click_B imp_B) (\<lambda>r_B. Inr \<bar>r_A - r_B\<bar>)) of
           Inl e \<Rightarrow> (Inl e, g)
         | Inr difference_in_rate \<Rightarrow>
        (case draw_p_sample_from_n_samples np_binomial g imp_A p num_simulations of
           (Inl e, g1) \<Rightarrow> (Inl e, g1)
         | (Inr p_A_array, g1) \<Rightarrow>
        (case draw_p_sample_from_n_samples np_binomial g1 imp_B p num_simulations of
           (Inl e, g2) \<Rightarrow> (Inl e, g2)
         | (Inr p_B_array, g2) \<Rightarrow>
             (let rbc = result_by_chance p_A_array p_B_array difference_in_rate
              in (int_truediv (\<Sum>b\<leftarrow>rbc. if b then 1 else 0) (int (length rbc)), g2))))))"

text \<open>
  A generator in which the outcomes are written down in advance: the state is the list of
  arrays still to be returned.  It stands for any fixed run of the random source.
\<close>

definition tape_binomial :: "int list list binomial" where
  "tape_binomial g imp prob_click num_trials =
     (case g of [] \<Rightarrow> (replicate num_trials 0, []) | xs # g' \<Rightarrow> (take num_trials (xs @ replicate num_trials 0), g'))"


text \<open>The quantities that the statements below speak about.\<close>

definition observed_rate :: "variation \<Rightarrow> real" where
  "observed_rate v = real_of_int (clicks v) / real_of_int (impressions v)"

definition pooled_rate :: "variation \<Rightarrow> variation \<Rightarrow> real" where
  "pooled_rate A B =
     real_of_int (clicks A + clicks B) / real_of_int (impressions A + impressions B)"

definition pooled_variance :: "variation \<Rightarrow> variation \<Rightarrow> real" where
  "pooled_variance A B =
     pooled_rate A B * (1 - pooled_rate A B) / real_of_int (impressions A)
     + pooled_rate A B * (1 - pooled_rate A B) / real_of_int (impressions B)"


section \<open>Auxiliary definitions\<close>

text \<open>
  The coefficients of the series of \<open>Phi\<close> as a power series in \<open>x\<close>: those of the even
  powers are 0.
\<close>

definition Phi_coeff :: "nat \<Rightarrow> real" where
  "Phi_coeff k = (if even k then 0
     else (- 1) ^ ((k - 1) div 2) / (2 ^ ((k - 1) div 2) * fact ((k - 1) div 2) * real k))"

text \<open>
  The partial sums of the series, computed term by term: \<open>t\<close> is the term of index \<open>n\<close>,
  \<open>s\<close> the sum of the terms before it, \<open>y\<close> the square of the argument and \<open>k\<close> the number
  of terms still to add.
\<close>

fun Phi_acc :: "real \<Rightarrow> real \<Rightarrow> real \<Rightarrow> nat \<Rightarrow> nat \<Rightarrow> real" where
  "Phi_acc y t s n 0 = s"
| "Phi_acc y t s n (Suc k) =
     Phi_acc y (- (t * y * real (2 * n + 1)) / (2 * real (n + 1) * real (2 * n + 3))) (s + t) (n + 1) k"

text \<open>
  The value of \<^verbatim>\<open>root_N\<close> in cell 18 when every intermediate value is finite.
\<close>

definition root_value :: "real \<Rightarrow> real \<Rightarrow> real \<Rightarrow> real \<Rightarrow> real" where
  "root_value p_A d alpha beta =
     (\<bar>quantile (1 - beta)\<bar> * sqrt (p_A * (1 - p_A) + (p_A + d) * (1 - (p_A + d)))
      + quantile (1 - alpha / 2)
        * sqrt (2 * (0.5 * (p_A + (p_A + d))) * (1 - 0.5 * (p_A + (p_A + d))))) / d"




section \<open>Basic facts\<close>



lemma analytic_unfold:
  assumes "impressions A \<noteq> 0" "impressions B \<noteq> 0" "impressions A + impressions B \<noteq> 0"
  shows "get_p_value_analytic A B =
    Inr (np_mul (Fin 2) (np_sub (Fin 1) (norm_cdf
      (np_div (Fin \<bar>observed_rate A - observed_rate B\<bar>) (np_sqrt (pooled_variance A B))))))"
  using assms
  by (simp add: get_p_value_analytic_def int_truediv_def float_truediv_def py_bind_def Let_def
        observed_rate_def pooled_rate_def pooled_variance_def)

section \<open>Degenerate inputs\<close>

text \<open>
  Claim C5.  With a trial count of 0 the proportion estimator raises, and with a trial
  count of 0 in either observation pair both significance tests raise: the exception is
  Python's \<^verbatim>\<open>ZeroDivisionError\<close>, raised before the simulation has drawn anything, so the
  global generator is left as it was.  With \<open>DeltaPi = 0\<close> the sample-size calculator
  raises as well, for all values of its other parameters: numpy's division returns an
  infinity or \<^verbatim>\<open>nan\<close>, and \<^verbatim>\<open>int\<close> raises \<^verbatim>\<open>OverflowError\<close> or \<^verbatim>\<open>ValueError\<close> on it.
  No call returns a value.
\<close>

theorem degenerate_inputs_raise:
  "(impressions v = 0 \<longrightarrow> rate v = Inl ZeroDivisionError) \<and>
   (impressions A = 0 \<or> impressions B = 0 \<longrightarrow>
      get_p_value_analytic A B = Inl ZeroDivisionError \<and>
      get_p_value_from_simulation np_binomial g n A B = (Inl ZeroDivisionError, g)) \<and>
   (power_function p_A 0 alpha beta = Inl OverflowError \<or>
    power_function p_A 0 alpha beta = Inl ValueError)"
proof (intro conjI impI)
  show "rate v = Inl ZeroDivisionError" if "impressions v = 0"
    using that by (simp add: rate_def int_truediv_def)
  show "get_p_value_analytic A B = Inl ZeroDivisionError"
    if "impressions A = 0 \<or> impressions B = 0"
    using that by (auto simp: get_p_value_analytic_def int_truediv_def py_bind_def)
  show "get_p_value_from_simulation np_binomial g n A B = (Inl ZeroDivisionError, g)"
    if "impressions A = 0 \<or> impressions B = 0"
    using that
    by (auto simp: get_p_value_from_simulation_def int_truediv_def py_bind_def Let_def)
  show "power_function p_A 0 alpha beta = Inl OverflowError \<or>
        power_function p_A 0 alpha beta = Inl ValueError"
  proof -
    have "\<exists>x. root_N p_A 0 alpha beta = np_div x (Fin 0)"
      unfolding root_N_def Let_def by blast
    then obtain x where r: "root_N p_A 0 alpha beta = np_div x (Fin 0)" ..
    have "np_div x (Fin 0) \<in> {PInf, NInf, NaN}"
      by (cases x) (simp_all add: np_of_sign_def)
    then show ?thesis
      unfolding power_function_def Let_def r
      by (auto simp: np_of_sign_def)
  qed
qed

theorem degenerate_inputs_raise_witness:
  "impressions \<lparr>clicks = 3, impressions = 0\<rparr> = 0 \<and>
   rate \<lparr>clicks = 3, impressions = 0\<rparr> = Inl ZeroDivisionError \<and>
   get_p_value_analytic \<lparr>clicks = 127, impressions = 5734\<rparr> \<lparr>clicks = 3, impressions = 0\<rparr>
     = Inl ZeroDivisionError \<and>
   get_p_value_from_simulation tape_binomial [[1, 2], [3, 4]] 2
     \<lparr>clicks = 127, impressions = 5734\<rparr> \<lparr>clicks = 3, impressions = 0\<rparr>
     = (Inl ZeroDivisionError, [[1, 2], [3, 4]]) \<and>
   (power_function (1 / 50) 0 (1 / 20) (4 / 5) = Inl OverflowError \<or>
    power_function (1 / 50) 0 (1 / 20) (4 / 5) = Inl ValueError)"
  using degenerate_inputs_raise [of "\<lparr>clicks = 3, impressions = 0\<rparr>"
      "\<lparr>clicks = 127, impressions = 5734\<rparr>" "\<lparr>clicks = 3, impressions = 0\<rparr>"
      tape_binomial "[[1, 2], [3, 4]]" 2 "1 / 50" "1 / 20" "4 / 5"]
  by simp

section \<open>The analytic test on identical arguments\<close>



section \<open>A zero pooled variance\<close>




section \<open>The simulation\<close>













section \<open>Symmetry\<close>



section \<open>The random source\<close>



section \<open>Domains of the sample-size calculator\<close>



section \<open>The distribution function: derivative, monotonicity, inverse\<close>

lemma Phi_term_abs:
  "\<bar>Phi_term x n\<bar> = \<bar>x\<bar> * (x\<^sup>2) ^ n / (2 ^ n * fact n * real (2 * n + 1))"
proof -
  have "Phi_term x n = (- 1) ^ n * (x * (x\<^sup>2) ^ n) / (2 ^ n * fact n * real (2 * n + 1))"
    by (simp add: Phi_term_def power_mult)
  then have "\<bar>Phi_term x n\<bar> = \<bar>(- 1) ^ n * (x * (x\<^sup>2) ^ n)\<bar> / (2 ^ n * fact n * real (2 * n + 1))"
    by (simp only: abs_divide) simp
  also have "\<bar>(- 1) ^ n * (x * (x\<^sup>2) ^ n)\<bar> = \<bar>x\<bar> * (x\<^sup>2) ^ n"
    by (simp add: abs_mult power_abs)
  finally show ?thesis .
qed

lemma Phi_term_abs_le:
  "\<bar>Phi_term x n\<bar> \<le> \<bar>x\<bar> * ((x\<^sup>2 / 2) ^ n / fact n)"
proof -
  define A where "A = \<bar>x\<bar> * ((x\<^sup>2 / 2) ^ n / fact n)"
  have A: "0 \<le> A" by (simp add: A_def)
  have "\<bar>Phi_term x n\<bar> = A / real (2 * n + 1)"
    unfolding Phi_term_abs A_def by (simp add: power_divide)
  also have "\<dots> \<le> A / 1"
    by (rule divide_left_mono) (simp_all add: A)
  finally show ?thesis by (simp add: A_def)
qed

lemma summable_Phi_term: "summable (Phi_term x)"
proof (rule summable_comparison_test)
  show "\<exists>N. \<forall>n\<ge>N. norm (Phi_term x n) \<le> \<bar>x\<bar> * ((x\<^sup>2 / 2) ^ n / fact n)"
    using Phi_term_abs_le by auto
  have "(\<lambda>n. (x\<^sup>2 / 2) ^ n /\<^sub>R fact n) = (\<lambda>n. (x\<^sup>2 / 2) ^ n / fact n)"
    by (rule ext) (simp add: field_simps)
  then have "summable (\<lambda>n. (x\<^sup>2 / 2) ^ n / fact n)"
    using summable_exp_generic [of "x\<^sup>2 / 2"] by simp
  then show "summable (\<lambda>n. \<bar>x\<bar> * ((x\<^sup>2 / 2) ^ n / fact n))"
    by (rule summable_mult)
qed

lemma Phi_coeff_power:
  "Phi_coeff k * x ^ k = (if even k then 0 else Phi_term x ((k - 1) div 2))"
proof (cases "even k")
  case True
  then show ?thesis by (simp add: Phi_coeff_def)
next
  case False
  then obtain n where k: "k = 2 * n + 1" by (auto elim: oddE)
  show ?thesis unfolding k by (simp add: Phi_coeff_def Phi_term_def)
qed

lemma Phi_coeff_sums: "(\<lambda>k. Phi_coeff k * x ^ k) sums (\<Sum>n. Phi_term x n)"
  unfolding Phi_coeff_power
  by (rule sums_if') (rule summable_sums [OF summable_Phi_term])

lemma Phi_coeff_odd:
  "Phi_coeff (Suc (2 * n)) = (- 1) ^ n / (2 ^ n * fact n * real (Suc (2 * n)))"
  by (simp add: Phi_coeff_def)

lemma diffs_Phi_coeff_even:
  "diffs Phi_coeff (2 * n) * x ^ (2 * n) = (- (x\<^sup>2) / 2) ^ n /\<^sub>R fact n"
proof -
  have "diffs Phi_coeff (2 * n) = real (Suc (2 * n)) * Phi_coeff (Suc (2 * n))"
    by (simp only: diffs_def)
  also have "\<dots> = (- 1) ^ n / (2 ^ n * fact n)"
    unfolding Phi_coeff_odd by (simp del: of_nat_Suc)
  finally have d: "diffs Phi_coeff (2 * n) = (- 1) ^ n / (2 ^ n * fact n)" .
  have "(- (x\<^sup>2 / 2)) ^ n = (- 1) ^ n * (x\<^sup>2 / 2) ^ n"
    by (rule power_minus)
  then have "(- (x\<^sup>2) / 2) ^ n = (- 1) ^ n * (x ^ (2 * n) / 2 ^ n)"
    by (simp add: power_mult power_divide)
  then have "(- (x\<^sup>2) / 2) ^ n /\<^sub>R fact n = (- 1) ^ n * (x ^ (2 * n) / 2 ^ n) / fact n"
    by (simp only: real_scaleR_def divide_inverse mult.commute)
  also have "\<dots> = (- 1) ^ n / (2 ^ n * fact n) * x ^ (2 * n)"
    by simp
  finally show ?thesis using d by simp
qed

lemma diffs_Phi_coeff_power:
  "diffs Phi_coeff k * x ^ k =
     (if even k then (- (x\<^sup>2) / 2) ^ (k div 2) /\<^sub>R fact (k div 2) else 0)"
proof (cases "even k")
  case True
  then obtain n where k: "k = 2 * n" by (auto elim: evenE)
  show ?thesis unfolding k using diffs_Phi_coeff_even [of n x] by simp
next
  case False
  then show ?thesis by (simp add: diffs_def Phi_coeff_def)
qed

lemma diffs_Phi_coeff_sums: "(\<lambda>k. diffs Phi_coeff k * x ^ k) sums exp (- (x\<^sup>2) / 2)"
proof -
  have "(\<lambda>k. if even k then (- (x\<^sup>2) / 2) ^ (k div 2) /\<^sub>R fact (k div 2)
              else (\<lambda>n. 0::real) ((k - 1) div 2)) sums (0 + exp (- (x\<^sup>2) / 2))"
    by (rule sums_if [OF sums_zero exp_converges])
  then show ?thesis by (simp add: diffs_Phi_coeff_power)
qed

lemma DERIV_Phi_series:
  "((\<lambda>x. \<Sum>n. Phi_term x n) has_field_derivative exp (- (x\<^sup>2) / 2)) (at x)"
proof -
  have "((\<lambda>x. \<Sum>k. Phi_coeff k * x ^ k) has_field_derivative (\<Sum>k. diffs Phi_coeff k * x ^ k)) (at x)"
    by (rule termdiffs_strong_converges_everywhere) (rule sums_summable [OF Phi_coeff_sums])
  moreover have "(\<lambda>x. \<Sum>k. Phi_coeff k * x ^ k) = (\<lambda>x. \<Sum>n. Phi_term x n)"
    using Phi_coeff_sums by (simp add: sums_iff)
  moreover have "(\<Sum>k. diffs Phi_coeff k * x ^ k) = exp (- (x\<^sup>2) / 2)"
    using diffs_Phi_coeff_sums by (simp add: sums_iff)
  ultimately show ?thesis by simp
qed

lemma DERIV_Phi: "(Phi has_field_derivative exp (- (x\<^sup>2) / 2) / sqrt (2 * pi)) (at x)"
proof -
  have "((\<lambda>x. 1 / 2 + (\<Sum>n. Phi_term x n) / sqrt (2 * pi)) has_field_derivative
         0 + exp (- (x\<^sup>2) / 2) / sqrt (2 * pi)) (at x)"
    by (intro DERIV_add DERIV_const DERIV_cdivide DERIV_Phi_series)
  then show ?thesis by (simp add: Phi_def [abs_def])
qed

lemma Phi_strict_mono:
  assumes "a < b"
  shows "Phi a < Phi b"
  using assms
proof (rule DERIV_pos_imp_increasing)
  fix x
  have "0 < exp (- (x\<^sup>2) / 2) / sqrt (2 * pi)" by simp
  then show "\<exists>y. (Phi has_real_derivative y) (at x) \<and> 0 < y"
    using DERIV_Phi by blast
qed

lemma Phi_mono: "a \<le> b \<Longrightarrow> Phi a \<le> Phi b"
  using Phi_strict_mono [of a b] by (cases "a = b") auto

lemma Phi_inj: "Phi a = Phi b \<Longrightarrow> a = b"
  using Phi_strict_mono [of a b] Phi_strict_mono [of b a] by (cases a b rule: linorder_cases) auto

lemma isCont_Phi: "isCont Phi x"
  using DERIV_Phi by (rule DERIV_isCont)

lemma Phi_quantile:
  assumes "Phi x = q"
  shows "quantile q = x"
  unfolding quantile_def using assms Phi_inj by (intro the_equality) auto

lemma quantile_between:
  assumes "Phi a < q" "q < Phi b"
  shows "Phi (quantile q) = q" "a < quantile q" "quantile q < b"
proof -
  have ab: "a < b"
  proof (rule ccontr)
    assume "\<not> a < b"
    then have "Phi b \<le> Phi a" by (simp add: Phi_mono)
    with assms show False by simp
  qed
  have "\<exists>x. a \<le> x \<and> x \<le> b \<and> Phi x = q"
    using assms ab by (intro IVT) (simp_all add: isCont_Phi)
  then obtain x where x: "a \<le> x" "x \<le> b" "Phi x = q" by blast
  then have qx: "quantile q = x" by (simp add: Phi_quantile)
  show "Phi (quantile q) = q" using x qx by simp
  have "x \<noteq> a" "x \<noteq> b" using x assms by auto
  then show "a < quantile q" "quantile q < b" using x qx by simp_all
qed

lemma Phi_term_minus: "Phi_term (- x) n = - Phi_term x n"
  by (simp add: Phi_term_def)

lemma Phi_minus: "Phi (- x) = 1 - Phi x"
  by (simp add: Phi_def Phi_term_minus suminf_minus summable_Phi_term)

section \<open>Enclosures of the series\<close>

lemma Phi_term_sign:
  assumes "0 \<le> x"
  shows "Phi_term x n = (- 1) ^ n * \<bar>Phi_term x n\<bar>"
  unfolding Phi_term_abs using assms by (simp add: Phi_term_def power_mult)

lemma ratio_algebra:
  fixes T D a b c y :: real
  assumes "a \<noteq> 0"
  shows "T * y / (2 * D * b * c) = T / (D * a) * (y * a / (2 * b * c))"
  using assms by simp

lemma Phi_term_abs_Suc:
  "\<bar>Phi_term x (Suc n)\<bar> =
     \<bar>Phi_term x n\<bar> * (x\<^sup>2 * real (2 * n + 1) / (2 * real (n + 1) * real (2 * n + 3)))"
proof -
  have "\<bar>Phi_term x (Suc n)\<bar> =
      \<bar>x\<bar> * (x\<^sup>2) ^ n * x\<^sup>2 / (2 * (2 ^ n * fact n) * real (n + 1) * real (2 * n + 3))"
    unfolding Phi_term_abs
    by (simp add: mult_ac del: of_nat_add of_nat_mult of_nat_Suc)
  also have "\<dots> = \<bar>x\<bar> * (x\<^sup>2) ^ n / ((2 ^ n * fact n) * real (2 * n + 1))
      * (x\<^sup>2 * real (2 * n + 1) / (2 * real (n + 1) * real (2 * n + 3)))"
    by (rule ratio_algebra) simp
  finally show ?thesis unfolding Phi_term_abs by (simp add: mult.assoc)
qed

lemma Phi_term_abs_decreasing:
  assumes "x\<^sup>2 \<le> 2 * real (n + 1)"
  shows "\<bar>Phi_term x (Suc n)\<bar> \<le> \<bar>Phi_term x n\<bar>"
proof -
  have "x\<^sup>2 * real (2 * n + 1) \<le> 2 * real (n + 1) * real (2 * n + 3)"
    using assms by (intro mult_mono) simp_all
  then have "x\<^sup>2 * real (2 * n + 1) / (2 * real (n + 1) * real (2 * n + 3)) \<le> 1"
    by (simp del: of_nat_add of_nat_mult)
  then have "\<bar>Phi_term x n\<bar> * (x\<^sup>2 * real (2 * n + 1) / (2 * real (n + 1) * real (2 * n + 3)))
             \<le> \<bar>Phi_term x n\<bar> * 1"
    by (intro mult_left_mono) simp_all
  then show ?thesis unfolding Phi_term_abs_Suc by simp
qed

lemma Phi_series_enclosure:
  assumes x: "0 \<le> x" and N: "even N" and big: "x\<^sup>2 \<le> 2 * real (N + 1)"
  shows "(\<Sum>n<N. Phi_term x n) \<le> (\<Sum>n. Phi_term x n)"
    and "(\<Sum>n. Phi_term x n) \<le> (\<Sum>n<Suc N. Phi_term x n)"
proof -
  define a where "a n = \<bar>Phi_term x (n + N)\<bar>" for n
  have tail: "Phi_term x (n + N) = (- 1) ^ n * a n" for n
    using Phi_term_sign [OF x, of "n + N"] N by (simp add: a_def power_add)
  have "Phi_term x \<longlonglongrightarrow> 0"
    by (rule summable_LIMSEQ_zero [OF summable_Phi_term])
  then have "(\<lambda>n. Phi_term x (n + N)) \<longlonglongrightarrow> 0"
    by (rule LIMSEQ_ignore_initial_segment)
  then have a0: "a \<longlonglongrightarrow> 0"
    unfolding a_def by (rule tendsto_rabs_zero)
  have apos: "0 \<le> a n" for n by (simp add: a_def)
  have amono: "a (Suc n) \<le> a n" for n
  proof -
    have "x\<^sup>2 \<le> 2 * real (n + N + 1)" using big by simp
    then show ?thesis unfolding a_def using Phi_term_abs_decreasing [of x "n + N"] by simp
  qed
  have lo: "0 \<le> (\<Sum>i. (- 1) ^ i * a i)"
    using summable_Leibniz'(2) [OF a0 apos amono, of 0] by simp
  have hi: "(\<Sum>i. (- 1) ^ i * a i) \<le> a 0"
    using summable_Leibniz'(4) [OF a0 apos amono, of 0] by simp
  have split: "(\<Sum>n. Phi_term x n) = (\<Sum>n. (- 1) ^ n * a n) + (\<Sum>n<N. Phi_term x n)"
    using suminf_split_initial_segment [OF summable_Phi_term, of x N] by (simp add: tail)
  show "(\<Sum>n<N. Phi_term x n) \<le> (\<Sum>n. Phi_term x n)"
    using lo split by simp
  have "a 0 = Phi_term x N" using tail [of 0] by simp
  then show "(\<Sum>n. Phi_term x n) \<le> (\<Sum>n<Suc N. Phi_term x n)"
    using hi split by simp
qed

section \<open>Bounds of \<open>pi\<close> from Machin's formula\<close>

lemma arctan_enclosure:
  assumes "0 \<le> x" "x \<le> 1"
  shows "(\<Sum>k<2 * n. (- 1) ^ k * (1 / real (k * 2 + 1) * x ^ (k * 2 + 1))) \<le> arctan x"
    and "arctan x \<le> (\<Sum>k<2 * n + 1. (- 1) ^ k * (1 / real (k * 2 + 1) * x ^ (k * 2 + 1)))"
proof -
  define a where "a k = 1 / real (k * 2 + 1) * x ^ (k * 2 + 1)" for k
  have ax: "\<bar>x\<bar> \<le> 1" using assms by simp
  have a0: "a \<longlonglongrightarrow> 0"
    unfolding a_def using zeroseq_arctan_series [OF ax] by simp
  have apos: "0 \<le> a k" for k using assms by (simp add: a_def)
  have amono: "a (Suc k) \<le> a k" for k
  proof -
    have p: "x ^ (Suc k * 2 + 1) \<le> x ^ (k * 2 + 1)"
      using assms by (intro power_decreasing) simp_all
    have q: "1 / real (Suc k * 2 + 1) \<le> 1 / real (k * 2 + 1)"
      by (intro divide_left_mono) simp_all
    show ?thesis unfolding a_def
      using p q assms by (intro mult_mono) simp_all
  qed
  have s: "arctan x = (\<Sum>k. (- 1) ^ k * a k)"
    unfolding a_def by (rule arctan_series [OF ax])
  show "(\<Sum>k<2 * n. (- 1) ^ k * (1 / real (k * 2 + 1) * x ^ (k * 2 + 1))) \<le> arctan x"
    unfolding s using summable_Leibniz'(2) [OF a0 apos amono, of n] by (simp add: a_def)
  show "arctan x \<le> (\<Sum>k<2 * n + 1. (- 1) ^ k * (1 / real (k * 2 + 1) * x ^ (k * 2 + 1)))"
    unfolding s using summable_Leibniz'(4) [OF a0 apos amono, of n] by (simp add: a_def)
qed

lemma pi_lower: "314159 / 100000 < pi"
proof -
  have a: "(\<Sum>k<2 * 3. (- 1) ^ k * (1 / real (k * 2 + 1) * (1 / 5) ^ (k * 2 + 1))) \<le> arctan (1 / 5)"
    by (rule arctan_enclosure) simp_all
  have b: "arctan (1 / 239) \<le> (\<Sum>k<2 * 0 + 1. (- 1) ^ k * (1 / real (k * 2 + 1) * (1 / 239) ^ (k * 2 + 1)))"
    by (rule arctan_enclosure) simp_all
  have a': "(\<Sum>k<2 * 3. (- 1) ^ k * (1 / real (k * 2 + 1) * (1 / 5) ^ (k * 2 + 1))) = (6679449362 / 33837890625 :: real)"
    by (simp add: eval_nat_numeral)
  have "pi = 16 * arctan (1 / 5) - 4 * arctan (1 / 239)"
    using machin by simp
  then show ?thesis using a b unfolding a' by simp
qed

lemma pi_upper: "pi < 3141593 / 1000000"
proof -
  have a: "arctan (1 / 5) \<le> (\<Sum>k<2 * 2 + 1. (- 1) ^ k * (1 / real (k * 2 + 1) * (1 / 5) ^ (k * 2 + 1)))"
    by (rule arctan_enclosure) simp_all
  have b: "(\<Sum>k<2 * 1. (- 1) ^ k * (1 / real (k * 2 + 1) * (1 / 239) ^ (k * 2 + 1))) \<le> arctan (1 / 239)"
    by (rule arctan_enclosure) simp_all
  have a': "(\<Sum>k<2 * 2 + 1. (- 1) ^ k * (1 / real (k * 2 + 1) * (1 / 5) ^ (k * 2 + 1))) = (24288907 / 123046875 :: real)"
    by (simp add: eval_nat_numeral)
  have b': "(\<Sum>k<2 * 1. (- 1) ^ k * (1 / real (k * 2 + 1) * (1 / 239) ^ (k * 2 + 1))) = (171362 / 40955757 :: real)"
    by (simp add: eval_nat_numeral)
  have "pi = 16 * arctan (1 / 5) - 4 * arctan (1 / 239)"
    using machin by simp
  then show ?thesis using a b unfolding a' b' by simp
qed

section \<open>Rational bounds of the distribution function\<close>

lemma inv_sqrt_2pi_upper: "1 / sqrt (2 * pi) \<le> 3989425 / 10000000"
proof -
  have "(10000000 / 3989425)\<^sup>2 \<le> 2 * (314159 / 100000 :: real)"
    by (simp add: power2_eq_square)
  also have "\<dots> \<le> 2 * pi" using pi_lower by simp
  finally have "10000000 / 3989425 \<le> sqrt (2 * pi)"
    by (rule real_le_rsqrt)
  then show ?thesis by (simp add: field_simps)
qed

lemma inv_sqrt_2pi_lower: "3989422 / 10000000 \<le> 1 / sqrt (2 * pi)"
proof -
  have "2 * pi \<le> 2 * (3141593 / 1000000)" using pi_upper by simp
  also have "\<dots> \<le> (10000000 / 3989422 :: real)\<^sup>2"
    by (simp add: power2_eq_square)
  finally have "sqrt (2 * pi) \<le> 10000000 / 3989422"
    by (intro real_le_lsqrt) simp_all
  then show ?thesis by (simp add: field_simps)
qed

lemma Phi_upper:
  assumes "0 \<le> x" "even N" "x\<^sup>2 \<le> 2 * real (N + 1)"
    and "0 \<le> (\<Sum>n<Suc N. Phi_term x n)"
  shows "Phi x \<le> 1 / 2 + (\<Sum>n<Suc N. Phi_term x n) * (3989425 / 10000000)"
proof -
  let ?U = "\<Sum>n<Suc N. Phi_term x n"
  have "(\<Sum>n. Phi_term x n) / sqrt (2 * pi) \<le> ?U / sqrt (2 * pi)"
    using Phi_series_enclosure(2) [OF assms(1-3)] by (simp add: divide_right_mono)
  also have "\<dots> = ?U * (1 / sqrt (2 * pi))" by simp
  also have "\<dots> \<le> ?U * (3989425 / 10000000)"
    using assms(4) inv_sqrt_2pi_upper by (rule mult_left_mono[rotated])
  finally show ?thesis by (simp add: Phi_def)
qed

lemma Phi_lower:
  assumes "0 \<le> x" "even N" "x\<^sup>2 \<le> 2 * real (N + 1)"
    and "0 \<le> (\<Sum>n<N. Phi_term x n)"
  shows "1 / 2 + (\<Sum>n<N. Phi_term x n) * (3989422 / 10000000) \<le> Phi x"
proof -
  let ?L = "\<Sum>n<N. Phi_term x n"
  have "?L * (3989422 / 10000000) \<le> ?L * (1 / sqrt (2 * pi))"
    using assms(4) inv_sqrt_2pi_lower by (rule mult_left_mono[rotated])
  also have "\<dots> = ?L / sqrt (2 * pi)" by simp
  also have "\<dots> \<le> (\<Sum>n. Phi_term x n) / sqrt (2 * pi)"
    using Phi_series_enclosure(1) [OF assms(1-3)] by (simp add: divide_right_mono)
  finally show ?thesis by (simp add: Phi_def)
qed

lemma Phi_term_Suc:
  "Phi_term x (Suc n) = - (Phi_term x n * x\<^sup>2 * real (2 * n + 1)) / (2 * real (n + 1) * real (2 * n + 3))"
proof -
  have "Phi_term x (Suc n) =
      - ((- 1) ^ n * x ^ (2 * n + 1) * x\<^sup>2) / (2 * (2 ^ n * fact n) * real (n + 1) * real (2 * n + 3))"
    unfolding Phi_term_def
    by (simp add: mult_ac power2_eq_square del: of_nat_add of_nat_mult of_nat_Suc)
  also have "\<dots> = - (((- 1) ^ n * x ^ (2 * n + 1)) / ((2 ^ n * fact n) * real (2 * n + 1))
      * (x\<^sup>2 * real (2 * n + 1) / (2 * real (n + 1) * real (2 * n + 3))))"
    unfolding minus_divide_left [symmetric]
    by (subst ratio_algebra [where a = "real (2 * n + 1)"]) simp_all
  finally show ?thesis unfolding Phi_term_def by (simp add: mult.assoc)
qed

lemma Phi_acc_sum:
  "Phi_acc (x\<^sup>2) (Phi_term x n) s n k = s + (\<Sum>i<k. Phi_term x (n + i))"
proof (induction k arbitrary: n s)
  case 0
  then show ?case by simp
next
  case (Suc k)
  have "Phi_acc (x\<^sup>2) (Phi_term x n) s n (Suc k) =
        Phi_acc (x\<^sup>2) (Phi_term x (Suc n)) (s + Phi_term x n) (Suc n) k"
    by (simp add: Phi_term_Suc del: of_nat_add of_nat_mult of_nat_Suc)
  also have "\<dots> = s + Phi_term x n + (\<Sum>i<k. Phi_term x (Suc n + i))"
    by (rule Suc.IH)
  also have "\<dots> = s + (\<Sum>i<Suc k. Phi_term x (n + i))"
    by (simp only: sum.lessThan_Suc_shift) simp
  finally show ?case .
qed

lemma Phi_partial_eval: "(\<Sum>i<k. Phi_term x i) = Phi_acc (x\<^sup>2) x 0 0 k"
  using Phi_acc_sum [of x 0 0 k] by (simp add: Phi_term_def)

lemma Phi_upper_acc:
  assumes "0 \<le> x" "odd M" "x\<^sup>2 \<le> 2 * real M"
    and "0 \<le> Phi_acc (x\<^sup>2) x 0 0 M \<and>
         1 / 2 + Phi_acc (x\<^sup>2) x 0 0 M * (3989425 / 10000000) \<le> u"
  shows "Phi x \<le> u"
proof -
  from \<open>odd M\<close> obtain N where M: "M = Suc N" and N: "even N"
    by (cases M) auto
  show ?thesis
    using Phi_upper [OF assms(1) N] assms(3,4) unfolding Phi_partial_eval M by simp
qed

lemma Phi_lower_acc:
  assumes "0 \<le> x" "even N" "x\<^sup>2 \<le> 2 * real (N + 1)"
    and "0 \<le> Phi_acc (x\<^sup>2) x 0 0 N \<and>
         l \<le> 1 / 2 + Phi_acc (x\<^sup>2) x 0 0 N * (3989422 / 10000000)"
  shows "l \<le> Phi x"
  using Phi_lower [OF assms(1-3)] assms(4) unfolding Phi_partial_eval by simp

lemma Phi_at_a: "Phi (271 / 322) \<le> 79999999 / 100000000"
proof (rule Phi_upper_acc [where M = 9])
  show "0 \<le> Phi_acc ((271 / 322)\<^sup>2) (271 / 322) 0 0 9 \<and>
        1 / 2 + Phi_acc ((271 / 322)\<^sup>2) (271 / 322) 0 0 9 * (3989425 / 10000000) \<le> 79999999 / 100000000"
    by (simp add: eval_nat_numeral power2_eq_square)
qed (simp_all add: power2_eq_square)

lemma Phi_at_b: "Phi (1419 / 724) \<le> 9749999 / 10000000"
proof (rule Phi_upper_acc [where M = 13])
  show "0 \<le> Phi_acc ((1419 / 724)\<^sup>2) (1419 / 724) 0 0 13 \<and>
        1 / 2 + Phi_acc ((1419 / 724)\<^sup>2) (1419 / 724) 0 0 13 * (3989425 / 10000000) \<le> 9749999 / 10000000"
    by (simp add: eval_nat_numeral power2_eq_square)
qed (simp_all add: power2_eq_square)

lemma Phi_at_c: "80000001 / 100000000 \<le> Phi (186 / 221)"
proof (rule Phi_lower_acc [where N = 8])
  show "0 \<le> Phi_acc ((186 / 221)\<^sup>2) (186 / 221) 0 0 8 \<and>
        80000001 / 100000000 \<le> 1 / 2 + Phi_acc ((186 / 221)\<^sup>2) (186 / 221) 0 0 8 * (3989422 / 10000000)"
    by (simp add: eval_nat_numeral power2_eq_square)
qed (simp_all add: power2_eq_square)

lemma Phi_at_d: "9750001 / 10000000 \<le> Phi (49 / 25)"
proof (rule Phi_lower_acc [where N = 12])
  show "0 \<le> Phi_acc ((49 / 25)\<^sup>2) (49 / 25) 0 0 12 \<and>
        9750001 / 10000000 \<le> 1 / 2 + Phi_acc ((49 / 25)\<^sup>2) (49 / 25) 0 0 12 * (3989422 / 10000000)"
    by (simp add: eval_nat_numeral power2_eq_square)
qed (simp_all add: power2_eq_square)

lemma Phi_at_e: "Phi (18 / 7) \<le> 9951 / 10000"
proof (rule Phi_upper_acc [where M = 13])
  show "0 \<le> Phi_acc ((18 / 7)\<^sup>2) (18 / 7) 0 0 13 \<and>
        1 / 2 + Phi_acc ((18 / 7)\<^sup>2) (18 / 7) 0 0 13 * (3989425 / 10000000) \<le> 9951 / 10000"
    by (simp add: eval_nat_numeral power2_eq_square)
qed (simp_all add: power2_eq_square)

lemma Phi_at_f: "9941 / 10000 \<le> Phi (23 / 9)"
proof (rule Phi_lower_acc [where N = 12])
  show "0 \<le> Phi_acc ((23 / 9)\<^sup>2) (23 / 9) 0 0 12 \<and>
        9941 / 10000 \<le> 1 / 2 + Phi_acc ((23 / 9)\<^sup>2) (23 / 9) 0 0 12 * (3989422 / 10000000)"
    by (simp add: eval_nat_numeral power2_eq_square)
qed (simp_all add: power2_eq_square)

lemma quantile_one_fifth: "- (186 / 221) < quantile (1 / 5)" "quantile (1 / 5) < - (271 / 322)"
  and Phi_quantile_one_fifth: "Phi (quantile (1 / 5)) = 1 / 5"
proof -
  have a: "Phi (- (186 / 221)) < 1 / 5" using Phi_at_c by (simp add: Phi_minus)
  have b: "1 / 5 < Phi (- (271 / 322))" using Phi_at_a by (simp add: Phi_minus)
  show "- (186 / 221) < quantile (1 / 5)" "quantile (1 / 5) < - (271 / 322)"
    "Phi (quantile (1 / 5)) = 1 / 5"
    using quantile_between [OF a b] by simp_all
qed

lemma quantile_39_40: "1419 / 724 < quantile (39 / 40)" "quantile (39 / 40) < 49 / 25"
  and Phi_quantile_39_40: "Phi (quantile (39 / 40)) = 39 / 40"
proof -
  have a: "Phi (1419 / 724) < 39 / 40" using Phi_at_b by simp
  have b: "39 / 40 < Phi (49 / 25)" using Phi_at_d by simp
  show "1419 / 724 < quantile (39 / 40)" "quantile (39 / 40) < 49 / 25"
    "Phi (quantile (39 / 40)) = 39 / 40"
    using quantile_between [OF a b] by simp_all
qed

section \<open>The value of the sample-size calculator\<close>

lemma power_function_value:
  assumes "0 < p_A" "p_A < 1" "0 < p_A + d" "p_A + d < 1" "d \<noteq> 0"
    "0 < alpha" "alpha < 1" "0 < beta" "beta < 1"
  shows "root_N p_A d alpha beta = Fin (root_value p_A d alpha beta)"
    and "power_function p_A d alpha beta = Inr \<lceil>(root_value p_A d alpha beta)\<^sup>2\<rceil>"
proof -
  have "0 \<le> p_A * (1 - p_A)" "0 \<le> (p_A + d) * (1 - (p_A + d))"
    using assms by (simp_all del: distrib_left distrib_right add: mult_nonneg_nonneg)
  then have s1: "0 \<le> p_A * (1 - p_A) + (p_A + d) * (1 - (p_A + d))"
    by (rule add_nonneg_nonneg)
  have "0 < 0.5 * (p_A + (p_A + d))" "0.5 * (p_A + (p_A + d)) < 1"
    using assms by simp_all
  then have s2: "0 \<le> 2 * (0.5 * (p_A + (p_A + d))) * (1 - 0.5 * (p_A + (p_A + d)))"
    by simp
  have q1: "norm_ppf (1 - beta) = Fin (quantile (1 - beta))"
    using assms by (simp add: norm_ppf_def)
  have q2: "norm_ppf (1 - alpha / 2) = Fin (quantile (1 - alpha / 2))"
    using assms by (simp add: norm_ppf_def)
  show r: "root_N p_A d alpha beta = Fin (root_value p_A d alpha beta)"
    using s1 s2 \<open>d \<noteq> 0\<close> unfolding root_N_def root_value_def Let_def q1 q2
    by (simp add: np_sqrt_def)
  show "power_function p_A d alpha beta = Inr \<lceil>(root_value p_A d alpha beta)\<^sup>2\<rceil>"
    unfolding power_function_def Let_def r by (simp add: power2_eq_square)
qed

lemma abs_quantile_one_fifth: "271 / 322 < \<bar>quantile (1 / 5)\<bar>" "\<bar>quantile (1 / 5)\<bar> < 186 / 221"
  using quantile_one_fifth by simp_all

lemma ceiling_of_square_between:
  fixes r :: real
  assumes "0 \<le> l" "l \<le> r" "r \<le> u" "real_of_int n - 1 < l\<^sup>2" "u\<^sup>2 \<le> real_of_int n"
  shows "\<lceil>r\<^sup>2\<rceil> = n"
proof -
  have "l\<^sup>2 \<le> r\<^sup>2" using assms by (intro power_mono) simp_all
  moreover have "r\<^sup>2 \<le> u\<^sup>2" using assms by (intro power_mono) simp_all
  ultimately have "real_of_int n - 1 < r\<^sup>2" "r\<^sup>2 \<le> real_of_int n"
    using assms by linarith+
  then show ?thesis by (rule ceiling_unique)
qed

lemma weighted_sum_between:
  fixes a b s t :: real
  assumes "0 \<le> a1" "a1 \<le> a" "a \<le> a2" "0 \<le> s1" "s1 \<le> s" "s \<le> s2"
    and "0 \<le> b1" "b1 \<le> b" "b \<le> b2" "0 \<le> t1" "t1 \<le> t" "t \<le> t2"
  shows "a1 * s1 + b1 * t1 \<le> a * s + b * t" "a * s + b * t \<le> a2 * s2 + b2 * t2"
proof -
  show "a1 * s1 + b1 * t1 \<le> a * s + b * t"
    using assms by (intro add_mono mult_mono) simp_all
  show "a * s + b * t \<le> a2 * s2 + b2 * t2"
    using assms by (intro add_mono mult_mono) simp_all
qed

lemma root_value_pos_example:
  "(271 / 322 * (143 / 648) + 1419 / 724 * (206 / 933)) * 100 \<le> root_value (1 / 50) (1 / 100) (1 / 20) (4 / 5)"
  "root_value (1 / 50) (1 / 100) (1 / 20) (4 / 5) \<le> (186 / 221 * (113 / 512) + 49 / 25 * (104 / 471)) * 100"
proof -
  have s1: "143 / 648 \<le> sqrt (487 / 10000)" "206 / 933 \<le> sqrt (39 / 800)"
    by (rule real_le_rsqrt, simp add: power2_eq_square)+
  have s2a: "sqrt (487 / 10000) \<le> 113 / 512"
    by (rule real_le_lsqrt) (simp_all add: power2_eq_square)
  have s2b: "sqrt (39 / 800) \<le> 104 / 471"
    by (rule real_le_lsqrt) (simp_all add: power2_eq_square)
  note s2 = s2a s2b
  have r: "root_value (1 / 50) (1 / 100) (1 / 20) (4 / 5) =
     (\<bar>quantile (1 / 5)\<bar> * sqrt (487 / 10000) + quantile (39 / 40) * sqrt (39 / 800)) * 100"
    by (simp add: root_value_def)
  note w = weighted_sum_between [of "271 / 322" "\<bar>quantile (1 / 5)\<bar>" "186 / 221"
      "143 / 648" "sqrt (487 / 10000)" "113 / 512"
      "1419 / 724" "quantile (39 / 40)" "49 / 25" "206 / 933" "sqrt (39 / 800)" "104 / 471"]
  show "(271 / 322 * (143 / 648) + 1419 / 724 * (206 / 933)) * 100 \<le> root_value (1 / 50) (1 / 100) (1 / 20) (4 / 5)"
    unfolding r using w(1) s1 s2 abs_quantile_one_fifth quantile_39_40 by simp
  show "root_value (1 / 50) (1 / 100) (1 / 20) (4 / 5) \<le> (186 / 221 * (113 / 512) + 49 / 25 * (104 / 471)) * 100"
    unfolding r using w(2) s1 s2 abs_quantile_one_fifth quantile_39_40 by simp
qed

text \<open>
  Claim C2.  \<^verbatim>\<open>power_function(0.02, 0.01, alpha=0.05, beta=0.8)\<close> returns 3826: the
  value under the ceiling lies between 3825.04 and 3825.82.
\<close>

theorem sample_size_example:
  "power_function (1 / 50) (1 / 100) (1 / 20) (4 / 5) = Inr 3826"
proof -
  have "\<lceil>(root_value (1 / 50) (1 / 100) (1 / 20) (4 / 5))\<^sup>2\<rceil> = 3826"
    by (rule ceiling_of_square_between [OF _ root_value_pos_example])
       (simp_all add: power2_eq_square)
  then show ?thesis
    using power_function_value(2) [of "1 / 50" "1 / 100" "1 / 20" "4 / 5"] by simp
qed

section \<open>The analytic test on the notebook's data\<close>

lemma analytic_positive_variance:
  assumes "impressions A \<noteq> 0" "impressions B \<noteq> 0" "impressions A + impressions B \<noteq> 0"
    and "0 < pooled_variance A B"
  shows "get_p_value_analytic A B =
    Inr (Fin (2 * (1 - Phi (\<bar>observed_rate A - observed_rate B\<bar> / sqrt (pooled_variance A B)))))"
  using assms(4) by (simp add: analytic_unfold [OF assms(1-3)] np_sqrt_def np_sub_def)

text \<open>
  Claim C1.  For A = (clicks 127, impressions 5734) and B = (clicks 174, impressions 5851)
  the analytic test returns a finite p-value within 0.001 of 0.0108: the z-statistic lies
  between 23/9 and 18/7, and the distribution function between 0.9941 and 0.9951 there.
\<close>

theorem analytic_example:
  "\<exists>p. get_p_value_analytic \<lparr>clicks = 127, impressions = 5734\<rparr>
            \<lparr>clicks = 174, impressions = 5851\<rparr> = Inr (Fin p) \<and>
       \<bar>p - 108 / 10000\<bar> \<le> 1 / 1000"
proof -
  let ?A = "\<lparr>clicks = 127, impressions = 5734\<rparr>"
  let ?B = "\<lparr>clicks = 174, impressions = 5851\<rparr>"
  define v where "v = pooled_variance ?A ?B"
  define d where "d = \<bar>observed_rate ?A - observed_rate ?B\<bar>"
  have d: "d = 254639 / 33549634"
    by (simp add: d_def observed_rate_def)
  have v: "v = 242606 / 27762322135"
    by (simp add: v_def pooled_variance_def pooled_rate_def)
  have vpos: "0 < v" by (simp add: v)
  have "sqrt v \<le> d * 9 / 23"
    by (rule real_le_lsqrt) (simp_all add: v d power2_eq_square)
  then have z1: "23 / 9 \<le> d / sqrt v"
    using vpos by (simp add: field_simps)
  have "d * 7 / 18 \<le> sqrt v"
    by (rule real_le_rsqrt) (simp add: v d power2_eq_square)
  then have z2: "d / sqrt v \<le> 18 / 7"
    using vpos by (simp add: field_simps)
  have "9941 / 10000 \<le> Phi (d / sqrt v)"
    using Phi_at_f Phi_mono [OF z1] by simp
  moreover have "Phi (d / sqrt v) \<le> 9951 / 10000"
    using Phi_at_e Phi_mono [OF z2] by simp
  ultimately have "\<bar>2 * (1 - Phi (d / sqrt v)) - 108 / 10000\<bar> \<le> 1 / 1000"
    by (intro abs_leI; simp)
  moreover have "get_p_value_analytic ?A ?B = Inr (Fin (2 * (1 - Phi (d / sqrt v))))"
    unfolding d_def v_def
    by (rule analytic_positive_variance) (use vpos in \<open>simp_all add: v_def\<close>)
  ultimately show ?thesis by blast
qed

section \<open>The distribution function takes every value in (0,1)\<close>















section \<open>Monotonicity of the sample size\<close>










end
